theory Spec2Isabelle
  imports Complex_Main "HOL-Library.Multiset" "HOL-Library.Word"
begin

section \<open>Descriptive statistics accumulator (Descriptive.h)\<close>

text \<open>
  The header defines one class template, \<open>Descriptive\<close> with the type parameter \<open>T\<close>,
  and an output operator for it. The embedding keeps the template parameter as a type
  variable \<open>'a\<close> with the operations the class body uses on it: \<open>0\<close> and \<open>+\<close> (the running
  sum, and the addition inside the even-count median) and the linear order (the maximum, and
  the order the partial sort uses).

  Values of C++ type \<open>double\<close> are modelled as real numbers, with not-a-number and the two
  infinities as separate values; no rounding is modelled.
\<close>

subsection \<open>Values and library context\<close>

datatype double = Fin real | NaN | PInf | NInf

text \<open>Division of two finite doubles, with the IEEE 754 results for a zero divisor.\<close>

definition ddiv :: "real \<Rightarrow> real \<Rightarrow> double" where
  "ddiv x y =
     (if y = 0 then (if x = 0 then NaN else if 0 < x then PInf else NInf)
      else Fin (x / y))"

text \<open>\<open>sqrt\<close> of the C mathematics library: not-a-number for a negative argument.\<close>

definition dsqrt :: "real \<Rightarrow> double" where
  "dsqrt x = (if x < 0 then NaN else Fin (sqrt x))"

text \<open>
  What the header takes from the C++ library and from the type \<open>T\<close>, none of it declared in
  the header itself:
  \<^item> \<open>limits_min\<close> is \<open>std::numeric_limits::min()\<close> of \<open>T\<close>;
  \<^item> \<open>to_double\<close> is the conversion of a \<open>T\<close> to \<open>double\<close>;
  \<^item> \<open>partial_sort k xs\<close> is the content of a vector holding \<open>xs\<close> after
    \<open>std::partial_sort(begin, begin + k, end)\<close>;
  \<^item> \<open>put_int\<close>, \<open>put_T\<close> and \<open>put_double\<close> are the characters that \<open>std::ostream\<close>
    writes for an \<open>int\<close>, a \<open>T\<close> and a \<open>double\<close>.
\<close>

record 'a lib =
  limits_min :: 'a
  to_double :: "'a \<Rightarrow> real"
  partial_sort :: "nat \<Rightarrow> 'a list \<Rightarrow> 'a list"
  put_int :: "int \<Rightarrow> string"
  put_T :: "'a \<Rightarrow> string"
  put_double :: "double \<Rightarrow> string"

text \<open>
  The C++ standard on \<open>std::partial_sort(first, middle, last)\<close>, for a valid range with
  \<open>middle\<close> inside it: the elements are rearranged, the \<open>middle - first\<close> smallest of them
  are placed, sorted, in \<open>[first, middle)\<close>, and the order of the rest is unspecified.
  Nothing is said about a call with \<open>middle\<close> beyond \<open>last\<close>.
\<close>

definition partial_sort_contract :: "(nat \<Rightarrow> 'a::linorder list \<Rightarrow> 'a list) \<Rightarrow> bool" where
  "partial_sort_contract ps \<longleftrightarrow>
     (\<forall>k xs. k \<le> length xs \<longrightarrow>
        mset (ps k xs) = mset xs \<and> take k (ps k xs) = take k (sort xs))"

text \<open>
  One function that meets the contract: the \<open>k\<close> smallest elements in ascending order,
  followed by the other elements in the order they had. (The heap selection of the common
  library implementations also leaves every tail element that it never swaps where it was.)
\<close>

definition partial_sort_ref :: "nat \<Rightarrow> 'a::linorder list \<Rightarrow> 'a list" where
  "partial_sort_ref k xs = take k (sort xs) @ fold remove1 (take k (sort xs)) xs"

subsection \<open>The class\<close>

text \<open>The private data members, in declaration order.\<close>

record 'a Descriptive =
  sum_d :: 'a
  max_d :: 'a
  values_d :: "'a list"
  a_d :: real
  q_d :: real
  is_sorted :: bool

text \<open>
  Reading \<open>values[i]\<close> or \<open>values.front()\<close> past the end of the vector is undefined behaviour
  in C++; the model makes it an outcome of its own.
\<close>

datatype fault = Out_Of_Range

definition at_d :: "'a list \<Rightarrow> nat \<Rightarrow> fault + 'a" where
  "at_d xs i = (if i < length xs then Inr (xs ! i) else Inl Out_Of_Range)"

text \<open>The constructor.\<close>

definition Descriptive_new :: "('a::{linorder,comm_monoid_add}) lib \<Rightarrow> 'a Descriptive" where
  "Descriptive_new L =
     \<lparr>sum_d = 0, max_d = limits_min L, values_d = [], a_d = 0, q_d = 0, is_sorted = True\<rparr>"

text \<open>
  \<open>sort()\<close>: sort the first half of the values, unless that was done since the last \<open>add\<close>.
  The middle of the range is \<open>begin + size / 2 + 1\<close>, which lies inside the vector when the
  vector is not empty; the flag is clear only then (\<open>state_of_history\<close> below).
\<close>

definition sort_d :: "'a lib \<Rightarrow> 'a Descriptive \<Rightarrow> 'a Descriptive" where
  "sort_d L d =
     (if is_sorted d then d
      else d\<lparr>values_d := partial_sort L (length (values_d d) div 2 + 1) (values_d d),
             is_sorted := True\<rparr>)"

definition get_sum :: "'a Descriptive \<Rightarrow> 'a" where
  "get_sum d = sum_d d"

text \<open>
  \<open>get_count\<close> returns \<open>values.size()\<close> as an \<open>int\<close>: the conversion from \<open>size_t\<close> keeps the
  low 32 bits, read as two's complement.
\<close>

definition get_count :: "'a Descriptive \<Rightarrow> int" where
  "get_count d = sint (word_of_nat (length (values_d d)) :: 32 word)"

definition get_min :: "'a lib \<Rightarrow> 'a Descriptive \<Rightarrow> fault + ('a \<times> 'a Descriptive)" where
  "get_min L d =
     (let d' = sort_d L d
      in case at_d (values_d d') 0 of
           Inl e \<Rightarrow> Inl e
         | Inr x \<Rightarrow> Inr (x, d'))"

definition get_max :: "'a Descriptive \<Rightarrow> 'a" where
  "get_max d = max_d d"

definition get_mean :: "'a lib \<Rightarrow> 'a Descriptive \<Rightarrow> double" where
  "get_mean L d = ddiv (to_double L (sum_d d)) (real (length (values_d d)))"

definition get_median ::
  "('a::{linorder,comm_monoid_add}) lib \<Rightarrow> 'a Descriptive \<Rightarrow> fault + (double \<times> 'a Descriptive)"
where
  "get_median L d =
     (if length (values_d d) = 0 then Inr (NaN, d)
      else
        let d' = sort_d L d; vs = values_d d'; n = length vs
        in if n mod 2 = 0 then
             (case at_d vs (n div 2) of
                Inl e \<Rightarrow> Inl e
              | Inr x \<Rightarrow>
                  (case at_d vs (n div 2 + 1) of
                     Inl e \<Rightarrow> Inl e
                   | Inr y \<Rightarrow> Inr (Fin (to_double L (x + y) / 2), d')))
           else
             (case at_d vs (n div 2) of
                Inl e \<Rightarrow> Inl e
              | Inr x \<Rightarrow> Inr (Fin (to_double L x), d')))"

definition add :: "('a::{linorder,comm_monoid_add}) lib \<Rightarrow> 'a Descriptive \<Rightarrow> 'a \<Rightarrow> 'a Descriptive" where
  "add L d v =
     (let vs = values_d d @ [v];
          a_prev = a_d d;
          a_new = a_prev + (to_double L v - a_prev) / real (length vs)
      in \<lparr>sum_d = sum_d d + v,
          max_d = (if v > max_d d then v else max_d d),
          values_d = vs,
          a_d = a_new,
          q_d = q_d d + (to_double L v - a_prev) * (to_double L v - a_new),
          is_sorted = False\<rparr>)"

definition get_standard_deviation :: "'a Descriptive \<Rightarrow> double" where
  "get_standard_deviation d =
     (if length (values_d d) \<noteq> 0 then dsqrt (q_d d / real (length (values_d d))) else NaN)"

subsection \<open>The output operator\<close>

definition tab :: char where
  "tab = CHR 0x09"

definition render :: "'a lib \<Rightarrow> 'a Descriptive \<Rightarrow> fault + (string \<times> 'a Descriptive)" where
  "render L d =
     (if get_count d \<noteq> 0 then
        (case get_min L d of
           Inl e \<Rightarrow> Inl e
         | Inr (m, d') \<Rightarrow>
             Inr (put_int L (get_count d) @ [tab] @ put_T L m @ [tab] @
                  put_double L (get_mean L d') @ [tab] @ put_T L (get_max d') @ [tab] @
                  put_double L (get_standard_deviation d'), d'))
      else Inr (''0'' @ [tab, tab, tab, tab], d))"

subsection \<open>Sequences of calls\<close>

text \<open>The accumulator after the calls \<open>add(v)\<close> for the elements \<open>v\<close> of a list, in order.\<close>

definition adds :: "('a::{linorder,comm_monoid_add}) lib \<Rightarrow> 'a list \<Rightarrow> 'a Descriptive" where
  "adds L vs = foldl (add L) (Descriptive_new L) vs"

text \<open>The public queries, and one function that runs any of them.\<close>

datatype query =
  Get_sum | Get_count | Get_min | Get_max | Get_mean | Get_median
  | Get_standard_deviation | Render

datatype 'a answer = T_answer 'a | Int_answer int | Double_answer double | Text_answer string

definition ask ::
  "('a::{linorder,comm_monoid_add}) lib \<Rightarrow> query \<Rightarrow> 'a Descriptive
     \<Rightarrow> fault + ('a answer \<times> 'a Descriptive)"
where
  "ask L qr d =
     (case qr of
        Get_sum \<Rightarrow> Inr (T_answer (get_sum d), d)
      | Get_count \<Rightarrow> Inr (Int_answer (get_count d), d)
      | Get_min \<Rightarrow> map_sum id (map_prod T_answer id) (get_min L d)
      | Get_max \<Rightarrow> Inr (T_answer (get_max d), d)
      | Get_mean \<Rightarrow> Inr (Double_answer (get_mean L d), d)
      | Get_median \<Rightarrow> map_sum id (map_prod Double_answer id) (get_median L d)
      | Get_standard_deviation \<Rightarrow> Inr (Double_answer (get_standard_deviation d), d)
      | Render \<Rightarrow> map_sum id (map_prod Text_answer id) (render L d))"

subsection \<open>Instantiations\<close>

text \<open>Decimal digits of an \<open>int\<close>, as the stream prints them.\<close>

fun digits :: "nat \<Rightarrow> string" where
  "digits n =
     (if n < 10 then [''0123456789'' ! n]
      else digits (n div 10) @ [''0123456789'' ! (n mod 10)])"

definition show_int :: "int \<Rightarrow> string" where
  "show_int i = (if i < 0 then ''-'' @ digits (nat (- i)) else digits (nat i))"

text \<open>
  \<open>Descriptive\<close> over \<open>int\<close> with a 32-bit \<open>int\<close>: \<open>std::numeric_limits::min()\<close> is \<open>-2^31\<close>.
  The values are modelled as mathematical integers (signed overflow is undefined in C++).
  The digits that the stream writes for a finite \<open>double\<close> (six significant digits after
  rounding) are outside the model: \<open>show_double\<close> writes a fixed mark for every finite value.
\<close>

definition show_double :: "double \<Rightarrow> string" where
  "show_double x = (case x of Fin r \<Rightarrow> ''<double>'' | NaN \<Rightarrow> ''nan'' | PInf \<Rightarrow> ''inf'' | NInf \<Rightarrow> ''-inf'')"

definition int_lib :: "int lib" where
  "int_lib =
     \<lparr>limits_min = - 2147483648, to_double = real_of_int, partial_sort = partial_sort_ref,
      put_int = show_int, put_T = show_int, put_double = show_double\<rparr>"

text \<open>
  \<open>Descriptive\<close> over \<open>double\<close>, the values read as reals: \<open>std::numeric_limits::min()\<close>
  is the smallest positive normalised value, \<open>2^-1022\<close>.
\<close>

definition double_lib :: "real lib" where
  "double_lib =
     \<lparr>limits_min = 1 / 2 ^ 1022, to_double = (\<lambda>x. x), partial_sort = partial_sort_ref,
      put_int = show_int, put_T = (\<lambda>x. show_double (Fin x)), put_double = show_double\<rparr>"

text \<open>
  \<open>Descriptive\<close> over a 32-bit \<open>unsigned\<close>: addition wraps, the order is the unsigned
  one, and \<open>std::numeric_limits::min()\<close> is 0.
\<close>

definition unsigned_lib :: "32 word lib" where
  "unsigned_lib =
     \<lparr>limits_min = 0, to_double = (\<lambda>w. real (unat w)), partial_sort = partial_sort_ref,
      put_int = show_int, put_T = (\<lambda>w. show_int (uint w)), put_double = show_double\<rparr>"

subsection \<open>Histories of calls\<close>

text \<open>
  A client of the class constructs an accumulator and then calls \<open>add\<close> and the queries in
  any order. \<open>run\<close> executes such a history from a given state and stops at the first
  out-of-range read; \<open>added\<close> is the sequence of values the history passed to \<open>add\<close>.
\<close>

datatype 'a call = Add 'a | Ask query

fun run ::
  "('a::{linorder,comm_monoid_add}) lib \<Rightarrow> 'a Descriptive \<Rightarrow> 'a call list
     \<Rightarrow> fault + 'a Descriptive"
where
  "run L d [] = Inr d"
| "run L d (Add v # cs) = run L (add L d v) cs"
| "run L d (Ask qr # cs) =
     (case ask L qr d of
        Inl e \<Rightarrow> Inl e
      | Inr (r, d') \<Rightarrow> run L d' cs)"

fun added :: "'a call list \<Rightarrow> 'a list" where
  "added [] = []"
| "added (Add v # cs) = v # added cs"
| "added (Ask qr # cs) = added cs"

text \<open>
  \<open>state_of L vs d\<close>: the accumulator \<open>d\<close> holds the values \<open>vs\<close>. The sum, the maximum
  and the running mean and variance are those of adding \<open>vs\<close> in order; the vector holds
  the same values in some order; when the flag is set, its first \<open>size / 2 + 1\<close> positions
  hold the smallest values in ascending order; the flag is only clear when the vector is
  not empty.
\<close>

definition state_of ::
  "('a::{linorder,comm_monoid_add}) lib \<Rightarrow> 'a list \<Rightarrow> 'a Descriptive \<Rightarrow> bool"
where
  "state_of L vs d \<longleftrightarrow>
     sum_d d = sum_d (adds L vs) \<and> max_d d = max_d (adds L vs) \<and>
     a_d d = a_d (adds L vs) \<and> q_d d = q_d (adds L vs) \<and>
     mset (values_d d) = mset vs \<and>
     (if is_sorted d
      then take (length vs div 2 + 1) (values_d d) = take (length vs div 2 + 1) (sort vs)
      else vs \<noteq> [])"

subsection \<open>Reference statistics\<close>

text \<open>
  The direct two-pass formulas: the mean, then the mean of the squared deviations from it
  (the population variance) and its square root.
\<close>

definition mean :: "real list \<Rightarrow> real" where
  "mean xs = sum_list xs / real (length xs)"

definition population_variance :: "real list \<Rightarrow> real" where
  "population_variance xs = (\<Sum>x\<leftarrow>xs. (x - mean xs)\<^sup>2) / real (length xs)"

definition population_standard_deviation :: "real list \<Rightarrow> real" where
  "population_standard_deviation xs = sqrt (population_variance xs)"

text \<open>Fields joined by tab characters.\<close>

fun tab_separated :: "string list \<Rightarrow> string" where
  "tab_separated [] = []"
| "tab_separated [f] = f"
| "tab_separated (f # g # fs) = f @ [tab] @ tab_separated (g # fs)"

section \<open>Properties\<close>

subsection \<open>The partial sort\<close>

lemma contract_mset:
  "partial_sort_contract ps \<Longrightarrow> k \<le> length xs \<Longrightarrow> mset (ps k xs) = mset xs"
  by (simp add: partial_sort_contract_def)

lemma contract_take:
  "partial_sort_contract ps \<Longrightarrow> k \<le> length xs \<Longrightarrow> take k (ps k xs) = take k (sort xs)"
  by (simp add: partial_sort_contract_def)

lemma contract_length:
  assumes "partial_sort_contract ps" and "k \<le> length xs"
  shows "length (ps k xs) = length xs"
proof -
  have "size (mset (ps k xs)) = size (mset xs)"
    using contract_mset [OF assms] by simp
  then show ?thesis by simp
qed

lemma mset_fold_remove1:
  "mset ys \<subseteq># mset xs \<Longrightarrow> mset (fold remove1 ys xs) = mset xs - mset ys"
proof (induction ys arbitrary: xs)
  case Nil
  show ?case by simp
next
  case (Cons y ys)
  from Cons.prems have sub: "mset ys \<subseteq># mset (remove1 y xs)"
    by (simp add: insert_subset_eq_iff)
  show ?case using Cons.IH [OF sub] by simp
qed

lemma partial_sort_ref_meets_contract: "partial_sort_contract partial_sort_ref"
  unfolding partial_sort_contract_def
proof (intro allI impI conjI)
  fix k and xs :: "'a list"
  assume k: "k \<le> length xs"
  have "mset (take k (sort xs)) \<subseteq># mset (sort xs)"
    by (metis append_take_drop_id mset_append mset_subset_eq_add_left)
  then have sub: "mset (take k (sort xs)) \<subseteq># mset xs" by simp
  show "mset (partial_sort_ref k xs) = mset xs"
    by (simp add: partial_sort_ref_def mset_fold_remove1 [OF sub] sub)
  show "take k (partial_sort_ref k xs) = take k (sort xs)"
    using k by (simp add: partial_sort_ref_def)
qed

lemma sort_cong_mset: "mset xs = mset ys \<Longrightarrow> sort xs = sort ys"
  by (rule properties_for_sort) simp_all

lemma sort_nth_0:
  assumes "xs \<noteq> []"
  shows "sort xs ! 0 = Min (set xs)"
proof -
  obtain y ys where s: "sort xs = y # ys"
    using assms by (cases "sort xs") (auto dest: arg_cong [where f = length])
  have "sorted (y # ys)" by (metis s sorted_sort)
  then have le: "\<forall>z\<in>set (y # ys). y \<le> z" by auto
  have set: "set (y # ys) = set xs" by (metis s set_sort)
  have "Min (set xs) = y"
  proof (rule Min_eqI)
    show "finite (set xs)" by simp
    show "\<And>z. z \<in> set xs \<Longrightarrow> y \<le> z" using le set by blast
    show "y \<in> set xs" using set by auto
  qed
  then show ?thesis by (simp add: s)
qed

subsection \<open>The effect of add\<close>

lemma adds_Nil: "adds L [] = Descriptive_new L"
  by (simp add: adds_def)

lemma adds_snoc: "adds L (vs @ [v]) = add L (adds L vs) v"
  by (simp add: adds_def)

lemma foldl_add_values: "values_d (foldl (add L) d vs) = values_d d @ vs"
  by (induction vs arbitrary: d) (simp_all add: add_def Let_def)

lemma adds_values: "values_d (adds L vs) = vs"
  by (simp add: adds_def foldl_add_values Descriptive_new_def)

lemma foldl_add_sum: "sum_d (foldl (add L) d vs) = sum_d d + sum_list vs"
  by (induction vs arbitrary: d) (simp_all add: add_def Let_def add.assoc)

lemma adds_sum: "sum_d (adds L vs) = sum_list vs"
  by (simp add: adds_def foldl_add_sum Descriptive_new_def)

lemma foldl_add_is_sorted: "is_sorted (foldl (add L) d vs) \<longleftrightarrow> vs = [] \<and> is_sorted d"
  by (induction vs arbitrary: d) (simp_all add: add_def Let_def)

lemma adds_is_sorted: "is_sorted (adds L vs) \<longleftrightarrow> vs = []"
  by (simp add: adds_def foldl_add_is_sorted Descriptive_new_def)

lemma foldl_add_max: "max_d (foldl (add L) d vs) = fold max vs (max_d d)"
proof (induction vs arbitrary: d)
  case Nil
  show ?case by simp
next
  case (Cons v vs)
  have "max_d (add L d v) = max v (max_d d)"
    by (auto simp add: add_def Let_def max_def)
  then show ?case
    using Cons.IH [of "add L d v"] by simp
qed

lemma adds_max: "max_d (adds L vs) = Max (set (limits_min L # vs))"
  by (simp only: adds_def foldl_add_max Max.set_eq_fold) (simp add: Descriptive_new_def)

subsection \<open>The running variance\<close>

lemma sum_sq_dev: 
  fixes m :: real
  shows "(\<Sum>x\<leftarrow>xs. (x - m)\<^sup>2) = (\<Sum>x\<leftarrow>xs. x\<^sup>2) - 2 * m * sum_list xs + real (length xs) * m\<^sup>2"
  by (induction xs) (simp_all add: power2_eq_square algebra_simps)

lemma welford_step:
  fixes n a x Q :: real
  assumes np: "n + 1 \<noteq> 0"
  shows "(Q - n * a\<^sup>2) + (x - a) * (x - (a + (x - a) / (n + 1)))
      = Q + x\<^sup>2 - (n + 1) * (a + (x - a) / (n + 1))\<^sup>2"
proof -
  define m where "m = n + 1"
  define e where "e = (x - a) / m"
  have m: "m \<noteq> 0" using np by (simp add: m_def)
  have x: "x = a + m * e" using m by (simp add: e_def)
  have n: "n = m - 1" by (simp add: m_def)
  have "(Q - n * a\<^sup>2) + (x - a) * (x - (a + e)) = Q + x\<^sup>2 - m * (a + e)\<^sup>2"
    unfolding x n by (simp add: power2_eq_square algebra_simps)
  then show ?thesis by (simp add: e_def m_def)
qed

lemma welford_invariant:
  "real (length vs) * a_d (adds L vs) = sum_list (map (to_double L) vs) \<and>
   q_d (adds L vs) = (\<Sum>v\<leftarrow>vs. (to_double L v)\<^sup>2) - real (length vs) * (a_d (adds L vs))\<^sup>2"
proof (induction vs rule: rev_induct)
  case Nil
  show ?case by (simp add: adds_def Descriptive_new_def)
next
  case (snoc v vs)
  define n where "n = real (length vs)"
  define a where "a = a_d (adds L vs)"
  define x where "x = to_double L v"
  define S where "S = sum_list (map (to_double L) vs)"
  define Q where "Q = (\<Sum>v\<leftarrow>vs. (to_double L v)\<^sup>2)"
  have n0: "0 \<le> n" by (simp add: n_def)
  have IH1: "n * a = S" and IH2: "q_d (adds L vs) = Q - n * a\<^sup>2"
    using snoc.IH by (simp_all add: n_def a_def S_def Q_def)
  have a': "a_d (adds L (vs @ [v])) = a + (x - a) / (n + 1)"
    by (simp add: adds_snoc add_def Let_def adds_values n_def a_def x_def)
  have q': "q_d (adds L (vs @ [v])) = (Q - n * a\<^sup>2) + (x - a) * (x - (a + (x - a) / (n + 1)))"
    using IH2 by (simp add: adds_snoc add_def Let_def adds_values n_def a_def x_def)
  have np: "n + 1 \<noteq> 0" using n0 by simp
  have e1: "(n + 1) * (a + (x - a) / (n + 1)) = S + x"
    using np IH1 by (simp add: field_simps)
  have e2: "(Q - n * a\<^sup>2) + (x - a) * (x - (a + (x - a) / (n + 1)))
      = Q + x\<^sup>2 - (n + 1) * (a + (x - a) / (n + 1))\<^sup>2"
    by (rule welford_step [OF np])
  have len: "real (length (vs @ [v])) = n + 1"
    by (simp add: n_def)
  have sum: "sum_list (map (to_double L) (vs @ [v])) = S + x"
    by (simp add: S_def x_def)
  have sq: "(\<Sum>v\<leftarrow>vs @ [v]. (to_double L v)\<^sup>2) = Q + x\<^sup>2"
    by (simp add: Q_def x_def)
  show ?case
    unfolding len sum sq a' q' using e1 e2 by (intro conjI)
qed

lemma adds_q_sum_sq_dev:
  assumes "vs \<noteq> []"
  shows "q_d (adds L vs) = (\<Sum>x\<leftarrow>map (to_double L) vs. (x - mean (map (to_double L) vs))\<^sup>2)"
proof -
  define xs where "xs = map (to_double L) vs"
  define n where "n = real (length vs)"
  define m where "m = mean xs"
  define Q where "Q = (\<Sum>x\<leftarrow>xs. x\<^sup>2)"
  define D where "D = (\<Sum>x\<leftarrow>xs. (x - m)\<^sup>2)"
  have n: "n \<noteq> 0" using assms by (simp add: n_def)
  have len: "real (length xs) = n" by (simp add: xs_def n_def)
  have S: "sum_list xs = n * m"
    using n by (simp add: m_def mean_def len)
  have a: "a_d (adds L vs) = m"
    using welford_invariant [of vs L] n S by (simp add: n_def xs_def)
  have Q': "(\<Sum>v\<leftarrow>vs. (to_double L v)\<^sup>2) = Q"
    by (simp add: Q_def xs_def comp_def)
  have q: "q_d (adds L vs) = Q - n * m\<^sup>2"
    using welford_invariant [of vs L] by (simp add: a Q' n_def)
  have "D = Q - 2 * m * sum_list xs + n * m\<^sup>2"
    unfolding D_def Q_def len [symmetric] by (rule sum_sq_dev)
  then have "D = Q - n * m\<^sup>2"
    by (simp add: S power2_eq_square algebra_simps)
  with q show ?thesis by (simp add: D_def m_def xs_def)
qed

lemma population_variance_nonneg: "0 \<le> population_variance xs"
  unfolding population_variance_def
  by (intro divide_nonneg_nonneg sum_list_nonneg) auto

subsection \<open>The state invariant\<close>

lemma state_of_new: "state_of L [] (Descriptive_new L)"
  by (simp add: state_of_def adds_Nil Descriptive_new_def)

lemma state_of_adds: "state_of L vs (adds L vs)"
  by (simp add: state_of_def adds_values adds_is_sorted)

lemma state_of_length: "state_of L vs d \<Longrightarrow> length (values_d d) = length vs"
  by (auto simp: state_of_def dest: mset_eq_length)

lemma state_of_add:
  assumes "state_of L vs d"
  shows "state_of L (vs @ [v]) (add L d v)"
proof -
  have len: "length (values_d d) = length vs"
    by (rule state_of_length [OF assms])
  show ?thesis
    using assms len
    by (simp add: state_of_def adds_snoc add_def Let_def adds_values)
qed

lemma state_of_sort_d:
  assumes c: "partial_sort_contract (partial_sort L)" and s: "state_of L vs d"
  shows "state_of L vs (sort_d L d)"
proof (cases "is_sorted d")
  case True
  then show ?thesis using s by (simp add: sort_d_def)
next
  case False
  define k where "k = length vs div 2 + 1"
  have len: "length (values_d d) = length vs"
    by (rule state_of_length [OF s])
  have ne: "vs \<noteq> []" using s False by (simp add: state_of_def)
  then have k: "k \<le> length (values_d d)"
    unfolding k_def len by (cases vs) simp_all
  have ms: "mset (values_d d) = mset vs" using s by (simp add: state_of_def)
  have "mset (partial_sort L k (values_d d)) = mset vs"
    using contract_mset [OF c k] ms by simp
  moreover have "take k (partial_sort L k (values_d d)) = take k (sort vs)"
    using contract_take [OF c k] sort_cong_mset [OF ms] by simp
  ultimately show ?thesis
    using s False by (simp add: sort_d_def state_of_def len k_def)
qed

lemma ask_state:
  assumes "ask L qr d = Inr (r, d')"
  shows "d' = d \<or> d' = sort_d L d"
  using assms
  by (cases qr)
     (auto simp: ask_def get_min_def get_median_def render_def Let_def
           split: if_splits sum.splits prod.splits)

lemma state_of_ask:
  assumes "partial_sort_contract (partial_sort L)" and "state_of L vs d"
    and "ask L qr d = Inr (r, d')"
  shows "state_of L vs d'"
  using ask_state [OF assms(3)] assms(2) state_of_sort_d [OF assms(1,2)] by auto

lemma state_of_run:
  assumes c: "partial_sort_contract (partial_sort L)"
  shows "state_of L vs d \<Longrightarrow> run L d cs = Inr d' \<Longrightarrow> state_of L (vs @ added cs) d'"
proof (induction cs arbitrary: vs d)
  case Nil
  then show ?case by simp
next
  case (Cons x cs)
  show ?case
  proof (cases x)
    case (Add v)
    have "state_of L ((vs @ [v]) @ added cs) d'"
      using Cons.prems Add by (intro Cons.IH [OF state_of_add]) simp_all
    then show ?thesis using Add by simp
  next
    case (Ask qr)
    from Cons.prems(2) Ask obtain r d1 where a: "ask L qr d = Inr (r, d1)" and r: "run L d1 cs = Inr d'"
      by (auto split: sum.splits)
    have "state_of L vs d1" by (rule state_of_ask [OF c Cons.prems(1) a])
    from Cons.IH [OF this r] show ?thesis using Ask by simp
  qed
qed

lemma state_of_history:
  assumes "partial_sort_contract (partial_sort L)" and "run L (Descriptive_new L) cs = Inr d"
  shows "state_of L (added cs) d"
  using state_of_run [OF assms(1) state_of_new assms(2)] by simp

subsection \<open>Helpers for the queries\<close>

lemma run_adds: "run L d (map Add vs) = Inr (foldl (add L) d vs)"
  by (induction vs arbitrary: d) simp_all

lemma added_map_Add: "added (map Add vs) = vs"
  by (induction vs) simp_all

lemma is_sorted_sort_d: "is_sorted (sort_d L d)"
  by (simp add: sort_d_def)

lemma sort_d_idem: "sort_d L (sort_d L d) = sort_d L d"
  by (simp add: sort_d_def)

lemma sort_d_frame:
  "sum_d (sort_d L d) = sum_d d" "max_d (sort_d L d) = max_d d"
  "a_d (sort_d L d) = a_d d" "q_d (sort_d L d) = q_d d"
  by (simp_all add: sort_d_def)

lemma state_of_sorted_nth:
  assumes s: "state_of L vs d" and f: "is_sorted d" and i: "i \<le> length vs div 2" and ne: "vs \<noteq> []"
  shows "at_d (values_d d) i = Inr (sort vs ! i)"
proof -
  define k where "k = length vs div 2 + 1"
  have ik: "i < k" using i by (simp add: k_def)
  have il: "i < length vs" using i ne by (cases vs) auto
  have t: "take k (values_d d) = take k (sort vs)"
    using s f by (simp add: state_of_def k_def)
  have "values_d d ! i = take k (values_d d) ! i" using ik by simp
  also have "\<dots> = sort vs ! i" unfolding t using ik by simp
  finally show ?thesis
    using il state_of_length [OF s] by (simp add: at_d_def)
qed

lemma sum_list_cong_mset:
  fixes xs ys :: "'a::comm_monoid_add list"
  shows "mset xs = mset ys \<Longrightarrow> sum_list xs = sum_list ys"
  by (metis sum_mset_sum_list)

lemma get_mean_sort_d:
  "length (values_d (sort_d L d)) = length (values_d d) \<Longrightarrow> get_mean L (sort_d L d) = get_mean L d"
  by (simp add: get_mean_def sort_d_frame)

lemma get_standard_deviation_sort_d:
  "length (values_d (sort_d L d)) = length (values_d d) \<Longrightarrow>
   get_standard_deviation (sort_d L d) = get_standard_deviation d"
  by (simp add: get_standard_deviation_def sort_d_frame)

lemma run_no_add:
  "is_sorted d \<Longrightarrow> run L d cs = Inr d' \<Longrightarrow> added cs = [] \<Longrightarrow> d' = d"
proof (induction cs arbitrary: d)
  case Nil
  then show ?case by simp
next
  case (Cons x cs)
  show ?case
  proof (cases x)
    case (Add v)
    with Cons.prems show ?thesis by simp
  next
    case (Ask qr)
    from Cons.prems(2) Ask obtain r d1 where a: "ask L qr d = Inr (r, d1)" and r: "run L d1 cs = Inr d'"
      by (auto split: sum.splits)
    have d1: "d1 = d"
      using ask_state [OF a] Cons.prems(1) by (auto simp: sort_d_def)
    show ?thesis using Cons.IH [of d] Cons.prems r d1 Ask by simp
  qed
qed

lemma get_count_small:
  assumes "int (length (values_d d)) < 2147483648"
  shows "get_count d = int (length (values_d d))"
proof -
  have "signed_take_bit 31 (int (length (values_d d))) = int (length (values_d d))"
    using assms by (intro signed_take_bit_int_eq_self) simp_all
  then show ?thesis
    by (simp add: get_count_def signed_of_nat)
qed

lemma get_count_nonzero: "get_count d \<noteq> 0 \<Longrightarrow> values_d d \<noteq> []"
  by (auto simp: get_count_def)

lemma get_count_length_cong:
  "length (values_d d') = length (values_d d) \<Longrightarrow> get_count d' = get_count d"
  by (simp add: get_count_def)

lemma get_min_of_state:
  assumes c: "partial_sort_contract (partial_sort L)"
    and s0: "state_of L vs d"
    and ne: "vs \<noteq> []"
  shows "get_min L d = Inr (Min (set vs), sort_d L d)"
proof -
  have s: "state_of L vs (sort_d L d)"
    by (rule state_of_sort_d [OF c s0])
  have "at_d (values_d (sort_d L d)) 0 = Inr (sort vs ! 0)"
    by (rule state_of_sorted_nth [OF s is_sorted_sort_d _ ne]) simp
  then show ?thesis
    by (simp add: get_min_def sort_nth_0 [OF ne])
qed

lemma sort_d_length:
  assumes c: "partial_sort_contract (partial_sort L)" and s: "state_of L vs d"
  shows "length (values_d (sort_d L d)) = length (values_d d)"
  using state_of_length [OF state_of_sort_d [OF c s]] state_of_length [OF s] by simp

lemma sort_d_mset:
  assumes c: "partial_sort_contract (partial_sort L)" and s: "state_of L vs d"
  shows "mset (values_d (sort_d L d)) = mset (values_d d)"
  using state_of_sort_d [OF c s] s by (simp add: state_of_def)

lemma ask_after_sort:
  assumes c: "partial_sort_contract (partial_sort L)" and s: "state_of L vs d"
  shows "ask L qr (sort_d L d) = map_sum id (map_prod id (\<lambda>_. sort_d L d)) (ask L qr d)"
proof -
  note l = sort_d_length [OF c s]
  note f = sort_d_frame [of L d] sort_d_idem [of L d] get_count_length_cong [OF l]
  show ?thesis
  proof (cases qr)
    case Get_sum
    then show ?thesis by (simp add: ask_def get_sum_def f)
  next
    case Get_count
    then show ?thesis by (simp add: ask_def f)
  next
    case Get_min
    then show ?thesis
      by (simp add: ask_def get_min_def f Let_def split: sum.splits)
  next
    case Get_max
    then show ?thesis by (simp add: ask_def get_max_def f)
  next
    case Get_mean
    then show ?thesis by (simp add: ask_def get_mean_def f l)
  next
    case Get_median
    then show ?thesis
      by (simp add: ask_def get_median_def f l Let_def split: sum.splits)
  next
    case Get_standard_deviation
    then show ?thesis by (simp add: ask_def get_standard_deviation_def f l)
  next
    case Render
    then show ?thesis
      by (simp add: ask_def render_def get_min_def f Let_def split: sum.splits)
  qed
qed

lemma ask_frame:
  assumes c: "partial_sort_contract (partial_sort L)" and s: "state_of L vs d"
    and a: "ask L qr d = Inr (r, d')"
  shows "sum_d d' = sum_d d" "max_d d' = max_d d" "a_d d' = a_d d" "q_d d' = q_d d"
    "length (values_d d') = length (values_d d)" "mset (values_d d') = mset (values_d d)"
  using ask_state [OF a] sort_d_frame [of L d] sort_d_length [OF c s] sort_d_mset [OF c s]
  by auto

lemma ask_twice:
  assumes c: "partial_sort_contract (partial_sort L)" and s: "state_of L vs d"
    and a: "ask L qr d = Inr (r, d')"
  shows "ask L qr d' = Inr (r, d')"
proof -
  from ask_state [OF a] show ?thesis
  proof
    assume "d' = d"
    then show ?thesis using a by simp
  next
    assume d': "d' = sort_d L d"
    show ?thesis
      unfolding d' ask_after_sort [OF c s] using a d' by simp
  qed
qed

lemma ask_after_ask:
  assumes c: "partial_sort_contract (partial_sort L)" and s: "state_of L vs d"
    and a: "ask L q1 d = Inr (r1, d1)"
  shows "map_sum id fst (ask L q2 d1) = map_sum id fst (ask L q2 d)"
proof -
  from ask_state [OF a] show ?thesis
  proof
    assume "d1 = d"
    then show ?thesis by simp
  next
    assume d1: "d1 = sort_d L d"
    show ?thesis
      unfolding d1 ask_after_sort [OF c s] by (cases "ask L q2 d") auto
  qed
qed

subsection \<open>The maximum, the empty accumulator and even counts\<close>

lemma get_max_of_state:
  assumes s: "state_of L vs d"
  shows "get_max d = Max (set (limits_min L # vs))"
  using s by (simp add: state_of_def get_max_def adds_max)

lemma get_max_bounded:
  assumes s: "state_of L vs d" and ne: "vs \<noteq> []" and b: "\<forall>v\<in>set vs. limits_min L \<le> v"
  shows "get_max d = Max (set vs)"
proof -
  have "Max (insert (limits_min L) (set vs)) = max (limits_min L) (Max (set vs))"
    using ne by (simp add: Max_insert)
  moreover have "limits_min L \<le> Max (set vs)"
  proof -
    obtain v where v: "v \<in> set vs" using ne by (cases vs) auto
    have "limits_min L \<le> v" using b v by blast
    also have "v \<le> Max (set vs)" using v by simp
    finally show ?thesis .
  qed
  ultimately show ?thesis
    using get_max_of_state [OF s] by (simp add: max_def)
qed

lemma get_min_empty:
  assumes r: "run L (Descriptive_new L) cs = Inr d" and e: "added cs = []"
  shows "get_min L d = Inl Out_Of_Range"
proof -
  have d: "d = Descriptive_new L"
    by (rule run_no_add [OF _ r e]) (simp add: Descriptive_new_def)
  show ?thesis unfolding d by (simp add: get_min_def sort_d_def at_d_def Descriptive_new_def)
qed

lemma get_median_two:
  assumes c: "partial_sort_contract (partial_sort L)" and s0: "state_of L vs d"
    and n: "length vs = 2"
  shows "get_median L d = Inl Out_Of_Range"
proof -
  have s: "state_of L vs (sort_d L d)" by (rule state_of_sort_d [OF c s0])
  have l0: "length (values_d d) = 2" using state_of_length [OF s0] n by simp
  have l: "length (values_d (sort_d L d)) = 2" using state_of_length [OF s] n by simp
  show ?thesis
    by (simp add: get_median_def Let_def l l0 at_d_def split: sum.splits)
qed

lemma get_median_even:
  assumes c: "partial_sort_contract (partial_sort L)" and s0: "state_of L vs d"
    and e: "even (length vs)" and n: "4 \<le> length vs"
  shows "\<exists>y\<in>set (drop (length vs div 2 + 1) (sort vs)).
    get_median L d = Inr (Fin (to_double L (sort vs ! (length vs div 2) + y) / 2), sort_d L d)"
proof -
  define k where "k = length vs div 2 + 1"
  define ws where "ws = values_d (sort_d L d)"
  have ne: "vs \<noteq> []" using n by auto
  have s: "state_of L vs (sort_d L d)" by (rule state_of_sort_d [OF c s0])
  have l0: "length (values_d d) = length vs" by (rule state_of_length [OF s0])
  have l: "length ws = length vs" unfolding ws_def by (rule state_of_length [OF s])
  have kl: "k < length vs" using e n unfolding k_def by presburger
  have t: "take k ws = take k (sort vs)"
    using s is_sorted_sort_d [of L d] by (simp add: state_of_def k_def ws_def)
  have m: "mset ws = mset (sort vs)" using s by (simp add: state_of_def ws_def)
  have "mset (take k ws) + mset (drop k ws) = mset (take k (sort vs)) + mset (drop k (sort vs))"
    using m by (simp flip: mset_append)
  then have "mset (drop k ws) = mset (drop k (sort vs))"
    unfolding t by simp
  then have sd: "set (drop k ws) = set (drop k (sort vs))"
    by (rule mset_eq_setD)
  have "ws ! k = drop k ws ! 0" using kl l by simp
  moreover have "drop k ws ! 0 \<in> set (drop k ws)" using kl l by (intro nth_mem) simp
  ultimately have y: "ws ! k \<in> set (drop k (sort vs))" using sd by simp
  have x: "at_d ws (length vs div 2) = Inr (sort vs ! (length vs div 2))"
    unfolding ws_def by (rule state_of_sorted_nth [OF s is_sorted_sort_d _ ne]) simp
  have k': "Suc (length vs div 2) = k" by (simp add: k_def)
  have "get_median L d = Inr (Fin (to_double L (sort vs ! (length vs div 2) + ws ! k) / 2), sort_d L d)"
    using e ne kl x l l0
    by (simp add: get_median_def Let_def at_d_def ws_def [symmetric] k')
  then show ?thesis using y unfolding k_def by blast
qed

lemma drop_3_of_4:
  assumes "length xs = 4"
  shows "drop 3 xs = [xs ! 3]"
proof -
  have "length xs = Suc (Suc (Suc (Suc 0)))" using assms by simp
  then obtain x0 x1 x2 x3 where "xs = [x0, x1, x2, x3]"
    by (auto simp: length_Suc_conv)
  then show ?thesis by (simp add: numeral_3_eq_3)
qed

lemma get_median_four:
  assumes c: "partial_sort_contract (partial_sort L)" and s0: "state_of L vs d"
    and n: "length vs = 4"
  shows "get_median L d = Inr (Fin (to_double L (sort vs ! 2 + sort vs ! 3) / 2), sort_d L d)"
proof -
  have "drop 3 (sort vs) = [sort vs ! 3]"
    by (rule drop_3_of_4) (simp add: n)
  then show ?thesis
    using get_median_even [OF c s0] n by simp
qed

lemma get_median_odd_of_state:
  assumes c: "partial_sort_contract (partial_sort L)"
    and s0: "state_of L vs d"
    and odd: "odd (length vs)"
  shows "get_median L d = Inr (Fin (to_double L (sort vs ! (length vs div 2))), sort_d L d)"
proof -
  have ne: "vs \<noteq> []" using odd by auto
  have s: "state_of L vs (sort_d L d)"
    by (rule state_of_sort_d [OF c s0])
  have l0: "length (values_d d) = length vs" by (rule state_of_length [OF s0])
  have l: "length (values_d (sort_d L d)) = length vs" by (rule state_of_length [OF s])
  have "at_d (values_d (sort_d L d)) (length vs div 2) = Inr (sort vs ! (length vs div 2))"
    by (rule state_of_sorted_nth [OF s is_sorted_sort_d _ ne]) simp
  then show ?thesis
    using odd ne by (simp add: get_median_def Let_def l l0 odd_iff_mod_2_eq_one)
qed

lemma get_min_fault_iff:
  assumes c: "partial_sort_contract (partial_sort L)" and s: "state_of L vs d"
  shows "(\<exists>e. get_min L d = Inl e) \<longleftrightarrow> vs = []"
proof (cases "vs = []")
  case True
  then have "is_sorted d" and "values_d d = []"
    using s by (auto simp: state_of_def split: if_splits)
  then show ?thesis
    using True by (simp add: get_min_def sort_d_def at_d_def)
next
  case False
  then show ?thesis using get_min_of_state [OF c s False] by simp
qed

lemma get_median_fault_iff:
  assumes c: "partial_sort_contract (partial_sort L)" and s: "state_of L vs d"
  shows "(\<exists>e. get_median L d = Inl e) \<longleftrightarrow> length vs = 2"
proof -
  have "length vs = 0 \<or> odd (length vs) \<or> length vs = 2 \<or> (even (length vs) \<and> 4 \<le> length vs)"
    by presburger
  then consider "length vs = 0" | "odd (length vs)" | "length vs = 2"
    | "even (length vs)" "4 \<le> length vs"
    by blast
  then show ?thesis
  proof cases
    case 1
    then show ?thesis using state_of_length [OF s] by (simp add: get_median_def)
  next
    case 2
    then show ?thesis using get_median_odd_of_state [OF c s 2] by auto
  next
    case 3
    then show ?thesis using get_median_two [OF c s 3] by simp
  next
    case 4
    then show ?thesis using get_median_even [OF c s 4] by auto
  qed
qed

lemma render_no_fault:
  assumes c: "partial_sort_contract (partial_sort L)" and s: "state_of L vs d"
  shows "\<exists>t d'. render L d = Inr (t, d')"
proof (cases "get_count d = 0")
  case True
  then show ?thesis by (simp add: render_def)
next
  case False
  have "values_d d \<noteq> []" by (rule get_count_nonzero [OF False])
  then have ne: "vs \<noteq> []" using state_of_length [OF s] by auto
  show ?thesis
    using False by (simp add: render_def get_min_of_state [OF c s ne])
qed

lemma ask_fault_iff:
  assumes c: "partial_sort_contract (partial_sort L)" and s: "state_of L vs d"
  shows "(\<exists>e. ask L qr d = Inl e) \<longleftrightarrow>
    (qr = Get_min \<and> vs = []) \<or> (qr = Get_median \<and> length vs = 2)"
proof (cases qr)
  case Get_min
  then show ?thesis
    using get_min_fault_iff [OF c s] by (cases "get_min L d") (auto simp: ask_def)
next
  case Get_median
  then show ?thesis
    using get_median_fault_iff [OF c s] by (cases "get_median L d") (auto simp: ask_def)
next
  case Render
  then show ?thesis
    using render_no_fault [OF c s] by (auto simp: ask_def)
qed (simp_all add: ask_def)

subsection \<open>Evaluation\<close>

text \<open>Evaluation of the model on concrete histories.\<close>

lemma int_lib_contract: "partial_sort_contract (partial_sort int_lib)"
  by (simp add: int_lib_def partial_sort_ref_meets_contract)

lemmas eval_defs = Descriptive_new_def add_def ask_def get_min_def get_median_def get_sum_def
  get_max_def get_mean_def get_standard_deviation_def render_def sort_d_def at_d_def
  int_lib_def partial_sort_ref_def Let_def

section \<open>The claims\<close>

subsection \<open>C1: the median of an even number of values\<close>

text \<open>
  C1. For an even number of values \<open>get_median\<close> reads the vector at the indices
  \<open>count / 2\<close> and \<open>count / 2 + 1\<close>, while the sort has ordered the positions up to
  \<open>count / 2\<close> only. With two values the second read is past the end of the vector. With
  the six values 1, 2, 3, 4, 6, 5 the partial sort leaves 6 at index 4, and the result is 5,
  while the values in ascending order have 4 and 5 at the indices 3 and 4, with average 4.5.
  With the four values 1, 2, 3, 4 the result is 3.5. (By \<open>get_median_two\<close> the read past
  the end happens for every partial sort that meets the contract; by \<open>get_median_four\<close> four
  values always give the average of the two largest; \<open>get_median_even\<close> is the general case.)
\<close>

theorem get_median_even_reads_past_sorted_part:
  "get_median int_lib (adds int_lib [1, 2]) = Inl Out_Of_Range \<and>
   map_sum id fst (get_median int_lib (adds int_lib [1, 2, 3, 4, 6, 5])) = Inr (Fin 5) \<and>
   (real_of_int (sort [1, 2, 3, 4, 6, 5] ! 3) + real_of_int (sort [1, 2, 3, 4, 6, 5] ! 4)) / 2 = 9 / 2 \<and>
   map_sum id fst (get_median int_lib (adds int_lib [1, 2, 3, 4])) = Inr (Fin (7 / 2))"
  by (simp add: adds_def eval_defs)

subsection \<open>C2: the running variance\<close>

text \<open>
  C2. For every history of calls that added at least one value, the running state \<open>q\<close>
  divided by the number of values is the population variance of the added values (over the
  reals), and \<open>get_standard_deviation\<close> returns the population standard deviation of the
  direct two-pass formula: the square root of the mean squared deviation from the mean.
\<close>

theorem running_variance_is_population_variance:
  assumes c: "partial_sort_contract (partial_sort L)"
    and r: "run L (Descriptive_new L) cs = Inr d"
    and ne: "added cs \<noteq> []"
  shows "q_d d / real (length (values_d d)) = population_variance (map (to_double L) (added cs)) \<and>
    get_standard_deviation d =
      Fin (population_standard_deviation (map (to_double L) (added cs)))"
proof -
  have s: "state_of L (added cs) d" by (rule state_of_history [OF c r])
  have l: "length (values_d d) = length (added cs)" by (rule state_of_length [OF s])
  have q: "q_d d = q_d (adds L (added cs))" using s by (simp add: state_of_def)
  have v: "q_d d / real (length (values_d d)) = population_variance (map (to_double L) (added cs))"
    unfolding q l adds_q_sum_sq_dev [OF ne] population_variance_def by simp
  have "get_standard_deviation d = dsqrt (q_d d / real (length (values_d d)))"
    using ne by (simp add: get_standard_deviation_def l)
  also have "\<dots> = Fin (population_standard_deviation (map (to_double L) (added cs)))"
    unfolding v population_standard_deviation_def dsqrt_def
    using population_variance_nonneg [of "map (to_double L) (added cs)"] by simp
  finally show ?thesis using v by simp
qed

theorem running_variance_is_population_variance_witness:
  "partial_sort_contract (partial_sort int_lib) \<and>
   added [Add (1::int), Add 2, Ask Get_min, Add 3, Add 4, Add 5] \<noteq> [] \<and>
   (\<exists>d. run int_lib (Descriptive_new int_lib) [Add 1, Add 2, Ask Get_min, Add 3, Add 4, Add 5] = Inr d \<and>
        q_d d / real (length (values_d d)) = 2 \<and> get_standard_deviation d = Fin (sqrt 2))"
proof -
  obtain d where r: "run int_lib (Descriptive_new int_lib) [Add 1, Add 2, Ask Get_min, Add 3, Add 4, Add 5] = Inr d"
    by (simp add: eval_defs)
  have a: "added [Add (1::int), Add 2, Ask Get_min, Add 3, Add 4, Add 5] \<noteq> []" by simp
  have v: "population_variance (map (to_double int_lib) [1, 2, 3, 4, 5]) = 2"
    by (simp add: population_variance_def mean_def int_lib_def)
  show ?thesis
    using running_variance_is_population_variance [OF int_lib_contract r a] r int_lib_contract v
    by (simp add: population_standard_deviation_def)
qed

subsection \<open>C3: the minimum\<close>

text \<open>
  C3. For every history of calls that added at least one value, in any order and with any
  queries in between, \<open>get_min\<close> returns the minimum of the added values: the sort leaves
  the \<open>size / 2 + 1\<close> smallest values in ascending order in the first positions of the
  vector, and \<open>get_min\<close> returns the first element. The partial sort is any function that
  meets the contract of the C++ standard.
\<close>

theorem get_min_is_minimum:
  assumes c: "partial_sort_contract (partial_sort L)"
    and r: "run L (Descriptive_new L) cs = Inr d"
    and ne: "added cs \<noteq> []"
  shows "get_min L d = Inr (Min (set (added cs)), sort_d L d) \<and>
    take (length (added cs) div 2 + 1) (values_d (sort_d L d)) =
      take (length (added cs) div 2 + 1) (sort (added cs))"
proof -
  have s0: "state_of L (added cs) d"
    by (rule state_of_history [OF c r])
  have s: "state_of L (added cs) (sort_d L d)"
    by (rule state_of_sort_d [OF c s0])
  have "take (length (added cs) div 2 + 1) (values_d (sort_d L d)) =
      take (length (added cs) div 2 + 1) (sort (added cs))"
    using s is_sorted_sort_d [of L d] by (simp add: state_of_def)
  then show ?thesis
    using get_min_of_state [OF c s0 ne] by simp
qed

theorem get_min_is_minimum_witness:
  "partial_sort_contract (partial_sort int_lib) \<and>
   (\<exists>d. run int_lib (Descriptive_new int_lib) [Add 3, Add 1, Add 4, Ask Get_median, Add 2] = Inr d \<and>
        map_sum id fst (get_min int_lib d) = Inr 1)"
proof -
  obtain d where r: "run int_lib (Descriptive_new int_lib) [Add 3, Add 1, Add 4, Ask Get_median, Add 2] = Inr d"
    by (simp add: eval_defs)
  have a: "added [Add (3::int), Add 1, Add 4, Ask Get_median, Add 2] \<noteq> []" by simp
  show ?thesis
    using get_min_is_minimum [OF int_lib_contract r a] r int_lib_contract by simp
qed

subsection \<open>C4: the median of an odd number of values\<close>

text \<open>
  C4. For every history of calls that added an odd number of values, in any order,
  \<open>get_median\<close> returns the element at zero-based index \<open>count / 2\<close> of the values in
  ascending order, the middle one; after adding 5, 3, 4, 1, 2 it is 3.
\<close>

theorem get_median_odd:
  assumes c: "partial_sort_contract (partial_sort L)"
    and r: "run L (Descriptive_new L) cs = Inr d"
    and odd: "odd (length (added cs))"
  shows "get_median L d =
    Inr (Fin (to_double L (sort (added cs) ! (length (added cs) div 2))), sort_d L d)"
  by (rule get_median_odd_of_state [OF c state_of_history [OF c r] odd])

theorem get_median_odd_witness:
  "partial_sort_contract (partial_sort int_lib) \<and>
   odd (length (added [Add (5::int), Add 3, Ask Get_min, Add 4, Add 1, Add 2])) \<and>
   (\<exists>d. run int_lib (Descriptive_new int_lib) [Add 5, Add 3, Ask Get_min, Add 4, Add 1, Add 2] = Inr d \<and>
        map_sum id fst (get_median int_lib d) = Inr (Fin 3))"
proof -
  obtain d where r: "run int_lib (Descriptive_new int_lib) [Add 5, Add 3, Ask Get_min, Add 4, Add 1, Add 2] = Inr d"
    by (simp add: eval_defs)
  have a: "odd (length (added [Add (5::int), Add 3, Ask Get_min, Add 4, Add 1, Add 2]))" by simp
  show ?thesis
    using get_median_odd [OF int_lib_contract r a] r int_lib_contract
    by (simp add: int_lib_def)
qed

subsection \<open>C5: the maximum\<close>

text \<open>
  C5. \<open>get_max\<close> returns the greatest of the sentinel and the added values
  (\<open>get_max_of_state\<close>): the maximum of the added values when none of them is below the
  sentinel (\<open>get_max_bounded\<close>), and the sentinel while nothing has been added. For
  \<open>double\<close> the sentinel \<open>std::numeric_limits::min()\<close> is the smallest positive normalised
  value, not the least value of the type: after \<open>add(-1.0)\<close>, and also after \<open>add(0.0)\<close>,
  \<open>get_max\<close> returns that sentinel and not the value added.
\<close>

theorem get_max_negative_double:
  "get_max (adds double_lib [- 1]) = 1 / 2 ^ 1022 \<and> Max (set [- 1 :: real]) = - 1 \<and>
   get_max (adds double_lib [0]) = 1 / 2 ^ 1022"
  by (simp add: adds_def add_def Let_def get_max_def Descriptive_new_def double_lib_def)

subsection \<open>C6: the empty accumulator\<close>

text \<open>
  C6. While no value has been added, \<open>get_median\<close> and \<open>get_standard_deviation\<close> return
  not-a-number, \<open>get_mean\<close> is the not-a-number of dividing zero by zero, and the output
  operator writes the line of the empty accumulator: each of them returns a value, and so do
  \<open>get_count\<close>, \<open>get_sum\<close> and \<open>get_max\<close>. The conversion of \<open>T\<close> to \<open>double\<close> is
  taken to map zero to zero. (The class has no exception and no error code. By
  \<open>ask_fault_iff\<close> the reads out of range, in the states a history can reach, are those of
  \<open>get_min\<close> on the empty accumulator and of \<open>get_median\<close> on two values.)
\<close>

theorem empty_population_results:
  assumes z: "to_double L 0 = 0"
    and r: "run L (Descriptive_new L) cs = Inr d"
    and e: "added cs = []"
  shows "get_median L d = Inr (NaN, d) \<and> get_standard_deviation d = NaN \<and>
    get_mean L d = NaN \<and> render L d = Inr (''0'' @ [tab, tab, tab, tab], d) \<and>
    get_count d = 0 \<and> get_sum d = 0 \<and> get_max d = limits_min L"
proof -
  have d: "d = Descriptive_new L"
    by (rule run_no_add [OF _ r e]) (simp add: Descriptive_new_def)
  show ?thesis
    unfolding d using z
    by (simp add: get_median_def get_standard_deviation_def get_mean_def ddiv_def render_def
        get_count_def get_sum_def get_max_def Descriptive_new_def)
qed

theorem empty_population_results_witness:
  "to_double int_lib 0 = 0 \<and>
   run int_lib (Descriptive_new int_lib) [Ask Get_median, Ask Render] = Inr (Descriptive_new int_lib) \<and>
   added ([Ask Get_median, Ask Render] :: int call list) = [] \<and>
   get_median int_lib (Descriptive_new int_lib) = Inr (NaN, Descriptive_new int_lib) \<and>
   get_standard_deviation (Descriptive_new int_lib) = NaN \<and>
   get_mean int_lib (Descriptive_new int_lib) = NaN"
proof -
  have z: "to_double int_lib 0 = 0" by (simp add: int_lib_def)
  have r: "run int_lib (Descriptive_new int_lib) [Ask Get_median, Ask Render] = Inr (Descriptive_new int_lib)"
    by (simp add: eval_defs get_count_def)
  have e: "added ([Ask Get_median, Ask Render] :: int call list) = []" by simp
  show ?thesis
    using empty_population_results [OF z r e] z r e by simp
qed

subsection \<open>C7: the output operator\<close>

text \<open>
  C7. When \<open>get_count\<close> is not zero the output operator writes one line with the fields
  count, minimum, mean, maximum and standard deviation, in this order, separated by tab
  characters; the minimum is that of the added values. When \<open>get_count\<close> is zero it writes
  the character 0 followed by four tab characters, calls no query and leaves the accumulator
  as it was.
\<close>

theorem render_line:
  assumes c: "partial_sort_contract (partial_sort L)"
    and r: "run L (Descriptive_new L) cs = Inr d"
  shows "render L d =
    (if get_count d \<noteq> 0 then
       Inr (tab_separated
              [put_int L (get_count d), put_T L (Min (set (added cs))),
               put_double L (get_mean L d), put_T L (get_max d),
               put_double L (get_standard_deviation d)],
            sort_d L d)
     else Inr (''0'' @ [tab, tab, tab, tab], d))"
proof (cases "get_count d = 0")
  case True
  then show ?thesis by (simp add: render_def)
next
  case False
  have s: "state_of L (added cs) d" by (rule state_of_history [OF c r])
  have "values_d d \<noteq> []" by (rule get_count_nonzero [OF False])
  then have ne: "added cs \<noteq> []" using state_of_length [OF s] by auto
  note l = sort_d_length [OF c s]
  show ?thesis
    using False
    by (simp add: render_def get_min_of_state [OF c s ne] get_mean_sort_d [OF l]
        get_standard_deviation_sort_d [OF l] get_max_def sort_d_frame)
qed

theorem render_line_witness:
  "partial_sort_contract (partial_sort int_lib) \<and>
   (\<exists>d. run int_lib (Descriptive_new int_lib) [Add 4, Add 3, Add 2, Add 1] = Inr d \<and>
      map_sum id fst (render int_lib d) =
        Inr (''4'' @ [tab] @ ''1'' @ [tab] @ show_double (get_mean int_lib d) @ [tab] @ ''4'' @ [tab] @
             show_double (get_standard_deviation d))) \<and>
   run int_lib (Descriptive_new int_lib) [] = Inr (Descriptive_new int_lib) \<and>
   map_sum id fst (render int_lib (Descriptive_new int_lib)) = Inr (''0'' @ [tab, tab, tab, tab])"
proof -
  obtain d where r: "run int_lib (Descriptive_new int_lib) [Add 4, Add 3, Add 2, Add 1] = Inr d"
    by (simp add: eval_defs)
  have r0: "run int_lib (Descriptive_new int_lib) [] = Inr (Descriptive_new int_lib)"
    by simp
  have l: "length (values_d d) = 4"
    using state_of_length [OF state_of_history [OF int_lib_contract r]] by simp
  have n: "get_count d = 4"
    using get_count_small [of d] l by simp
  have m: "get_max d = 4"
    using state_of_history [OF int_lib_contract r] by (simp add: state_of_def get_max_def adds_max int_lib_def)
  have z: "get_count (Descriptive_new int_lib) = 0"
    by (simp add: get_count_def Descriptive_new_def)
  have "map_sum id fst (render int_lib d) =
        Inr (''4'' @ [tab] @ ''1'' @ [tab] @ show_double (get_mean int_lib d) @ [tab] @ ''4'' @ [tab] @
             show_double (get_standard_deviation d))"
    using render_line [OF int_lib_contract r] n m by (simp add: int_lib_def show_int_def)
  moreover have "map_sum id fst (render int_lib (Descriptive_new int_lib)) = Inr (''0'' @ [tab, tab, tab, tab])"
    using render_line [OF int_lib_contract r0] z by simp
  ultimately show ?thesis
    using int_lib_contract r r0 by blast
qed

subsection \<open>C8: repeated queries\<close>

text \<open>
  C8. In every state a history of calls can reach, a query that returns a result returns the
  same result, and leaves the state it produced unchanged, when it is called again. A query
  leaves the state as it was or as \<open>sort\<close> makes it. Every \<open>add\<close> clears the flag
  \<open>is_sorted\<close>, \<open>sort\<close> sets it, and \<open>sort\<close> does nothing when it is set, so the vector
  is sorted at most once between two calls of \<open>add\<close>.
\<close>

theorem queries_idempotent:
  assumes c: "partial_sort_contract (partial_sort L)"
    and r: "run L (Descriptive_new L) cs = Inr d"
  shows "(\<forall>qr res d'. ask L qr d = Inr (res, d') \<longrightarrow> ask L qr d' = Inr (res, d')) \<and>
    (\<forall>qr res d'. ask L qr d = Inr (res, d') \<longrightarrow> d' = d \<or> d' = sort_d L d) \<and>
    (\<forall>v. \<not> is_sorted (add L d v)) \<and>
    is_sorted (sort_d L d) \<and>
    (is_sorted d \<longrightarrow> sort_d L d = d) \<and>
    sort_d L (sort_d L d) = sort_d L d"
proof -
  have s: "state_of L (added cs) d" by (rule state_of_history [OF c r])
  have "ask L qr d' = Inr (res, d')" if "ask L qr d = Inr (res, d')" for qr res d'
    by (rule ask_twice [OF c s that])
  moreover have "d' = d \<or> d' = sort_d L d" if "ask L qr d = Inr (res, d')" for qr res d'
    by (rule ask_state [OF that])
  moreover have "\<not> is_sorted (add L d v)" for v
    by (simp add: add_def Let_def)
  moreover have "is_sorted d \<longrightarrow> sort_d L d = d"
    by (simp add: sort_d_def)
  ultimately show ?thesis
    using is_sorted_sort_d [of L d] sort_d_idem [of L d] by blast
qed

theorem queries_idempotent_witness:
  "partial_sort_contract (partial_sort int_lib) \<and>
   (\<exists>d d'. run int_lib (Descriptive_new int_lib) [Add 3, Add 1, Add 2] = Inr d \<and>
      ask int_lib Get_median d = Inr (Double_answer (Fin 2), d') \<and>
      ask int_lib Get_median d' = Inr (Double_answer (Fin 2), d') \<and>
      \<not> is_sorted d \<and> is_sorted d')"
proof -
  obtain d where r: "run int_lib (Descriptive_new int_lib) [Add 3, Add 1, Add 2] = Inr d"
    by (simp add: eval_defs)
  have n: "\<not> is_sorted d"
    using r by (auto simp: eval_defs)
  obtain d' where a: "ask int_lib Get_median d = Inr (Double_answer (Fin 2), d')"
    using r by (auto simp: eval_defs)
  note t = queries_idempotent [OF int_lib_contract r]
  have a2: "ask int_lib Get_median d' = Inr (Double_answer (Fin 2), d')"
    using t a by blast
  have "is_sorted d'"
    using r a by (auto simp: eval_defs)
  then show ?thesis
    using int_lib_contract r a a2 n by blast
qed

subsection \<open>C9: the sum and the count\<close>

text \<open>
  C9, as stated, fails where the machine integers wrap. After \<open>2^31\<close> calls of \<open>add\<close> the
  \<open>int\<close> that \<open>get_count\<close> returns is \<open>-2^31\<close>. With a 32-bit unsigned \<open>T\<close>, adding
  4294967295 and 1 gives the sum 0.
\<close>

theorem sum_and_count_wrap:
  "get_count (adds int_lib (replicate 2147483648 0)) = - 2147483648 \<and>
   int (length (replicate 2147483648 (0::int))) = 2147483648 \<and>
   get_sum (adds unsigned_lib [4294967295, 1]) = 0 \<and>
   uint (4294967295 :: 32 word) + uint (1 :: 32 word) = 4294967296"
proof -
  have "(word_of_nat 2147483648 :: 32 word) = 2147483648"
    by (simp only: of_nat_numeral)
  then have "sint (word_of_nat 2147483648 :: 32 word) = - 2147483648"
    by simp
  then have "get_count (adds int_lib (replicate 2147483648 0)) = - 2147483648"
    by (simp only: get_count_def adds_values length_replicate)
  moreover have "int (length (replicate 2147483648 (0::int))) = 2147483648"
    by (simp only: length_replicate of_nat_numeral)
  moreover have "get_sum (adds unsigned_lib [4294967295, 1]) = 0"
    by (simp add: get_sum_def adds_sum)
  moreover have "uint (4294967295 :: 32 word) + uint (1 :: 32 word) = 4294967296"
    by simp
  ultimately show ?thesis by blast
qed

text \<open>
  C9, amended. For every history of calls, \<open>get_sum\<close> is the sum of the added values in the
  addition of \<open>T\<close>, the same for every order of the same values, and \<open>get_count\<close> is the
  number of calls of \<open>add\<close> as long as that number is below \<open>2^31\<close>.
\<close>

theorem sum_and_count:
  assumes c: "partial_sort_contract (partial_sort L)"
    and r: "run L (Descriptive_new L) cs = Inr d"
  shows "get_sum d = sum_list (added cs) \<and>
    (\<forall>cs' d'. run L (Descriptive_new L) cs' = Inr d' \<and> mset (added cs') = mset (added cs)
        \<longrightarrow> get_sum d' = get_sum d) \<and>
    (int (length (added cs)) < 2147483648 \<longrightarrow> get_count d = int (length (added cs)))"
proof -
  have sum: "get_sum d' = sum_list (added cs')"
    if "run L (Descriptive_new L) cs' = Inr d'" for cs' d'
    using state_of_history [OF c that] by (simp add: state_of_def get_sum_def adds_sum)
  have l: "length (values_d d) = length (added cs)"
    by (rule state_of_length [OF state_of_history [OF c r]])
  have "get_count d = int (length (added cs))" if "int (length (added cs)) < 2147483648"
    using get_count_small [of d] that l by simp
  then show ?thesis
    using sum [OF r] sum sum_list_cong_mset by metis
qed

theorem sum_and_count_witness:
  "partial_sort_contract (partial_sort int_lib) \<and>
   (\<exists>d d'. run int_lib (Descriptive_new int_lib) [Add 4, Ask Get_min, Add 3, Add 2, Add 1] = Inr d \<and>
      run int_lib (Descriptive_new int_lib) [Add 1, Add 2, Add 3, Add 4] = Inr d' \<and>
      mset (added [Add (1::int), Add 2, Add 3, Add 4]) = mset (added [Add 4, Ask Get_min, Add 3, Add 2, Add 1]) \<and>
      int (length (added [Add (4::int), Ask Get_min, Add 3, Add 2, Add 1])) < 2147483648 \<and>
      get_sum d = 10 \<and> get_sum d' = get_sum d \<and> get_count d = 4)"
proof -
  obtain d where r: "run int_lib (Descriptive_new int_lib) [Add 4, Ask Get_min, Add 3, Add 2, Add 1] = Inr d"
    by (simp add: eval_defs)
  obtain d' where r': "run int_lib (Descriptive_new int_lib) [Add 1, Add 2, Add 3, Add 4] = Inr d'"
    by (simp add: eval_defs)
  have m: "mset (added [Add (1::int), Add 2, Add 3, Add 4]) = mset (added [Add 4, Ask Get_min, Add 3, Add 2, Add 1])"
    by (simp add: add_mset_commute)
  have b: "int (length (added [Add (4::int), Ask Get_min, Add 3, Add 2, Add 1])) < 2147483648"
    by simp
  note t = sum_and_count [OF int_lib_contract r]
  have s1: "get_sum d = 10" using t by simp
  have s2: "get_sum d' = get_sum d" using t r' m by blast
  have s3: "get_count d = 4" using t by simp
  show ?thesis
    using int_lib_contract r r' m b s1 s2 s3 by blast
qed

subsection \<open>C10: what a query may change\<close>

text \<open>
  C10. In every state a history of calls can reach, a query that returns leaves the sum, the
  maximum, the running mean and variance, the number of stored values and the multiset of
  stored values unchanged: the new state differs from the old one in the order of the vector
  and in the flag \<open>is_sorted\<close> at most. Every query returns the same result after it as
  before it.
\<close>

theorem queries_frame:
  assumes c: "partial_sort_contract (partial_sort L)"
    and r: "run L (Descriptive_new L) cs = Inr d"
    and a: "ask L q1 d = Inr (r1, d1)"
  shows "sum_d d1 = sum_d d \<and> max_d d1 = max_d d \<and> a_d d1 = a_d d \<and> q_d d1 = q_d d \<and>
    length (values_d d1) = length (values_d d) \<and> mset (values_d d1) = mset (values_d d) \<and>
    d1 = d\<lparr>values_d := values_d d1, is_sorted := is_sorted d1\<rparr> \<and>
    (\<forall>q2. map_sum id fst (ask L q2 d1) = map_sum id fst (ask L q2 d))"
proof -
  have s: "state_of L (added cs) d" by (rule state_of_history [OF c r])
  note f = ask_frame [OF c s a]
  have "d1 = d\<lparr>values_d := values_d d1, is_sorted := is_sorted d1\<rparr>"
    using f by (intro Descriptive.equality) simp_all
  then show ?thesis
    using f ask_after_ask [OF c s a] by blast
qed

theorem queries_frame_witness:
  "partial_sort_contract (partial_sort int_lib) \<and>
   (\<exists>d d1. run int_lib (Descriptive_new int_lib) [Add 3, Add 1, Add 2] = Inr d \<and>
      ask int_lib Get_min d = Inr (T_answer 1, d1) \<and>
      values_d d = [3, 1, 2] \<and> values_d d1 = [1, 2, 3] \<and>
      sum_d d1 = sum_d d \<and> mset (values_d d1) = mset (values_d d) \<and>
      map_sum id fst (ask int_lib Get_median d1) = map_sum id fst (ask int_lib Get_median d))"
proof -
  obtain d where r: "run int_lib (Descriptive_new int_lib) [Add 3, Add 1, Add 2] = Inr d"
    by (simp add: eval_defs)
  obtain d1 where a: "ask int_lib Get_min d = Inr (T_answer 1, d1)"
    using r by (auto simp: eval_defs)
  have v: "values_d d = [3, 1, 2]" using r by (auto simp: eval_defs)
  have v1: "values_d d1 = [1, 2, 3]" using r a by (auto simp: eval_defs)
  note t = queries_frame [OF int_lib_contract r a]
  have f1: "sum_d d1 = sum_d d" using t by blast
  have f2: "mset (values_d d1) = mset (values_d d)" using t by blast
  have f3: "map_sum id fst (ask int_lib Get_median d1) = map_sum id fst (ask int_lib Get_median d)"
    using t by blast
  show ?thesis using int_lib_contract r a v v1 f1 f2 f3 by blast
qed

end
